theory Spec2Isabelle
  imports Complex_Main "HOL-Library.Finite_Map" "HOL-Library.Multiset"
begin

section \<open>Values of the interface type \<open>any\<close>\<close>

text \<open>
  The cache of \<^verbatim>\<open>pkg/anycache/anycache.go\<close> is a \<^verbatim>\<open>map[any]any\<close>: keys and values are
  interface values, that is a dynamic type together with a value of that type, or the nil
  interface. What the map does with a key depends on the key's dynamic type and on the
  value itself, so both are part of the model.

  \<open>TInt\<close> stands for every integer type and \<open>TStruct\<close> carries the name of the struct type
  and the types of its fields, the blank ones included. \<^verbatim>\<open>incmpUser\<close> of the example
  programs is a struct whose first field has the type \<^verbatim>\<open>[0]func()\<close>.
\<close>

type_synonym addr = nat

datatype gotype =
    TBool
  | TInt
  | TFloat32
  | TFloat64
  | TComplex64
  | TComplex128
  | TString
  | TPointer gotype
  | TChan gotype
  | TFunc
  | TSlice gotype
  | TMap gotype gotype
  | TArray nat gotype
  | TStruct string "gotype list"
  | TInterface

text \<open>
  The comparable types of the Go language specification: slice, map and function types are
  not comparable; an array type is comparable if its element type is; a struct type is
  comparable if all its field types are; every other type is comparable, interface types
  included.
\<close>

fun comparable :: "gotype \<Rightarrow> bool" where
  "comparable TFunc = False"
| "comparable (TSlice t) = False"
| "comparable (TMap k v) = False"
| "comparable (TArray n t) = comparable t"
| "comparable (TStruct name ts) = (\<forall>t \<in> set ts. comparable t)"
| "comparable t = True"

text \<open>
  A floating-point number is not-a-number, an infinity with its sign, or a rational. The
  two zeros are one value here: \<^verbatim>\<open>==\<close> does not tell them apart, and nothing below looks
  at a number other than through \<^verbatim>\<open>==\<close>.
\<close>

datatype float = NaN | Infinity bool | Num rat

text \<open>
  Values. \<open>VElems\<close> holds the fields of a struct or the elements of an array or slice, in
  order; \<open>VRef\<close> is a pointer or a channel. A field or element of interface type holds
  \<open>VNilIface\<close> or \<open>VDyn\<close>, an interface value with its own dynamic type.
\<close>

datatype val =
    VBool bool
  | VInt int
  | VFloat float
  | VComplex float float
  | VString string
  | VRef addr
  | VFunc nat
  | VElems "val list"
  | VNilIface
  | VDyn gotype val

datatype any = GoNil | Dyn gotype val

text \<open>
  Hashing a key (\<^verbatim>\<open>runtime.mapKeyError\<close> and the hash functions, reached from every map
  read and write, also on an empty map). A key whose dynamic type is not comparable panics
  with "hash of unhashable type". A key of a comparable type is hashed part by part, and an
  interface value met on the way, in a field or an element, panics in the same way if its
  own dynamic type is not comparable. The nil interface is a valid key.
\<close>

datatype panic = HashOfUnhashableType gotype

fun val_hash_error :: "val \<Rightarrow> panic option" where
  "val_hash_error (VElems []) = None"
| "val_hash_error (VElems (v # vs)) =
     (case val_hash_error v of Some p \<Rightarrow> Some p | None \<Rightarrow> val_hash_error (VElems vs))"
| "val_hash_error (VDyn t v) =
     (if comparable t then val_hash_error v else Some (HashOfUnhashableType t))"
| "val_hash_error v = None"

fun mapKeyError :: "any \<Rightarrow> panic option" where
  "mapKeyError GoNil = None"
| "mapKeyError (Dyn t v) =
     (if comparable t then val_hash_error v else Some (HashOfUnhashableType t))"

definition hashable :: "any \<Rightarrow> bool" where
  "hashable key \<longleftrightarrow> mapKeyError key = None"

text \<open>
  Go's \<^verbatim>\<open>==\<close> on two keys that can be hashed. Not-a-number is equal to nothing, itself
  included, and so is every value that holds one in a field or an element. Every other
  value is equal to itself, and two such values are equal exactly if they have the same
  dynamic type and the same parts. The runtime calls a key type reflexive if \<^verbatim>\<open>k == k\<close>
  holds for all its keys; \<open>reflexive\<close> says it of one key.
\<close>

fun val_reflexive :: "val \<Rightarrow> bool" where
  "val_reflexive (VFloat f) = (f \<noteq> NaN)"
| "val_reflexive (VComplex re im) = (re \<noteq> NaN \<and> im \<noteq> NaN)"
| "val_reflexive (VElems vs) = (\<forall>v \<in> set vs. val_reflexive v)"
| "val_reflexive (VDyn t v) = val_reflexive v"
| "val_reflexive v = True"

fun reflexive :: "any \<Rightarrow> bool" where
  "reflexive GoNil = True"
| "reflexive (Dyn t v) = val_reflexive v"

definition go_eq :: "any \<Rightarrow> any \<Rightarrow> bool" where
  "go_eq a b \<longleftrightarrow> a = b \<and> reflexive a"


section \<open>Maps\<close>

text \<open>
  A map finds the entry of a key by hashing the key and comparing with \<^verbatim>\<open>==\<close>. An entry
  whose key is equal to itself is found by that key and by no other: these are the
  \<open>cells\<close>. An entry whose key is not equal to itself is never found again, by any key: it
  cannot be read or overwritten, but it is counted by \<^verbatim>\<open>len\<close>, visited by \<^verbatim>\<open>range\<close> and
  removed by \<^verbatim>\<open>clear\<close>. These entries are the list \<open>loose\<close>, in the order they were added.
\<close>

record gomap =
  cells :: "(any, any) fmap"
  loose :: "(any \<times> any) list"

definition emptymap :: gomap where
  "emptymap = \<lparr>cells = fmempty, loose = []\<rparr>"

text \<open>
  The two-result map read \<^verbatim>\<open>v, ok := m[key]\<close> and the map write \<^verbatim>\<open>m[key] = value\<close>. A
  read that finds no entry gives the zero value of the element type, here the nil
  interface, and \<open>False\<close>.
\<close>

definition mapaccess2 :: "gomap \<Rightarrow> any \<Rightarrow> panic + (any \<times> bool)" where
  "mapaccess2 m key =
     (case mapKeyError key of
        Some p \<Rightarrow> Inl p
      | None \<Rightarrow>
          if reflexive key then
            (case fmlookup (cells m) key of None \<Rightarrow> Inr (GoNil, False) | Some v \<Rightarrow> Inr (v, True))
          else Inr (GoNil, False))"

definition mapassign :: "gomap \<Rightarrow> any \<Rightarrow> any \<Rightarrow> panic + gomap" where
  "mapassign m key v =
     (case mapKeyError key of
        Some p \<Rightarrow> Inl p
      | None \<Rightarrow>
          if reflexive key then Inr (m\<lparr>cells := fmupd key v (cells m)\<rparr>)
          else Inr (m\<lparr>loose := loose m @ [(key, v)]\<rparr>))"

definition maplen :: "gomap \<Rightarrow> nat" where
  "maplen m = card (fmdom' (cells m)) + length (loose m)"

definition mapclear :: "gomap \<Rightarrow> gomap" where
  "mapclear m = emptymap"

text \<open>The keys of the entries of a map, each as often as it has entries.\<close>

definition stored_keys :: "gomap \<Rightarrow> any multiset" where
  "stored_keys m = mset_set (fmdom' (cells m)) + mset (map fst (loose m))"


section \<open>The heap\<close>

text \<open>
  Maps and slices are references in Go: the \<^verbatim>\<open>AnyCache\<close> struct holds a reference to its
  map, and \<^verbatim>\<open>Keys\<close> returns a slice, a window on a backing array. Both kinds of object
  live in a heap, split by type: a map reference never aliases an array. Addresses are
  handed out in increasing order; \<open>next_map\<close> and \<open>next_array\<close> are the first addresses
  not yet allocated.
\<close>

record heap =
  map_objs :: "addr \<Rightarrow> gomap"
  array_objs :: "addr \<Rightarrow> any list"
  next_map :: addr
  next_array :: addr

record slice =
  ptr :: addr
  len :: nat
  cap :: nat

text \<open>The elements a caller sees through a slice.\<close>

definition slice_elems :: "heap \<Rightarrow> slice \<Rightarrow> any list" where
  "slice_elems h s = take (len s) (array_objs h (ptr s))"

text \<open>
  \<^verbatim>\<open>make(map[any]any, hint)\<close>: a fresh empty map. The hint sizes the first allocation and
  has no other effect, so it does not appear in the result.
\<close>

definition makemap :: "int \<Rightarrow> heap \<Rightarrow> addr \<times> heap" where
  "makemap hint h =
     (next_map h, h\<lparr>map_objs := (map_objs h)(next_map h := emptymap), next_map := next_map h + 1\<rparr>)"

text \<open>\<^verbatim>\<open>make([]any, 0, n)\<close>: a fresh backing array of \<open>n\<close> nil interfaces, and a slice of length 0 on it.\<close>

definition makeslice :: "nat \<Rightarrow> heap \<Rightarrow> slice \<times> heap" where
  "makeslice n h =
     (\<lparr>ptr = next_array h, len = 0, cap = n\<rparr>,
      h\<lparr>array_objs := (array_objs h)(next_array h := replicate n GoNil),
        next_array := next_array h + 1\<rparr>)"

text \<open>
  \<^verbatim>\<open>append(s, x)\<close>: with room left the element is written into the backing array in place;
  without, the elements move to a fresh, larger array. The language leaves the new capacity
  open beyond being large enough; \<open>growcap\<close> doubles, as the runtime does for short slices.
\<close>

definition growcap :: "nat \<Rightarrow> nat" where
  "growcap c = max (c + 1) (2 * c)"

definition append_go :: "slice \<Rightarrow> any \<Rightarrow> heap \<Rightarrow> slice \<times> heap" where
  "append_go s x h =
     (if len s < cap s then
        (s\<lparr>len := len s + 1\<rparr>,
         h\<lparr>array_objs := (array_objs h)(ptr s := (array_objs h (ptr s))[len s := x])\<rparr>)
      else
        (\<lparr>ptr = next_array h, len = len s + 1, cap = growcap (cap s)\<rparr>,
         h\<lparr>array_objs := (array_objs h)(next_array h :=
               slice_elems h s @ x # replicate (growcap (cap s) - (len s + 1)) GoNil),
           next_array := next_array h + 1\<rparr>))"


section \<open>The cache\<close>

text \<open>
  \<^verbatim>\<open>AnyCache\<close> holds a reference to its map and a pointer to its mutex. Every method
  locks the mutex on entry and unlocks it, by \<^verbatim>\<open>defer\<close>, on every exit. The embedding is
  sequential: a method call is one step on the heap, and the mutex is not part of the
  state. The methods with a value receiver (\<^verbatim>\<open>Get\<close>, \<^verbatim>\<open>Keys\<close>, \<^verbatim>\<open>Len\<close>) copy the
  struct, which copies the reference, not the map.

  Every method gives either a panic or its results together with the heap it leaves.
\<close>

record AnyCache =
  items :: addr

record Item =
  Key :: any
  Value :: any

datatype error = ErrMinCacheSize | ErrMaxCacheSize

definition maxCacheSize :: int where
  "maxCacheSize = 5 * 100 * 1024 * 1024"

definition New :: "int \<Rightarrow> heap \<Rightarrow> error + (AnyCache \<times> heap)" where
  "New capacity h =
     (if capacity \<ge> maxCacheSize then Inl ErrMaxCacheSize
      else if capacity < 1 then Inl ErrMinCacheSize
      else (case makemap capacity h of (m, h') \<Rightarrow> Inr (\<lparr>items = m\<rparr>, h')))"

text \<open>
  \<^verbatim>\<open>Set\<close> reads the map first, to learn whether the key is there, and writes second. A key
  that cannot be hashed panics at the read, before anything is written.
\<close>

definition Set :: "AnyCache \<Rightarrow> any \<Rightarrow> any \<Rightarrow> heap \<Rightarrow> panic + ((Item \<times> bool) \<times> heap)" where
  "Set ac key v h =
     (case mapaccess2 (map_objs h (items ac)) key of
        Inl p \<Rightarrow> Inl p
      | Inr (_, ok) \<Rightarrow>
          (let overwritten = (if ok then True else False) in
           case mapassign (map_objs h (items ac)) key v of
             Inl p \<Rightarrow> Inl p
           | Inr m' \<Rightarrow>
               Inr ((\<lparr>Key = key, Value = v\<rparr>, overwritten),
                    h\<lparr>map_objs := (map_objs h)(items ac := m')\<rparr>)))"

definition Get :: "AnyCache \<Rightarrow> any \<Rightarrow> heap \<Rightarrow> panic + ((Item \<times> bool) \<times> heap)" where
  "Get ac key h =
     (case mapaccess2 (map_objs h (items ac)) key of
        Inl p \<Rightarrow> Inl p
      | Inr (item, ok) \<Rightarrow>
          if \<not> ok then Inr ((\<lparr>Key = GoNil, Value = GoNil\<rparr>, False), h)
          else Inr ((\<lparr>Key = key, Value = item\<rparr>, True), h))"

text \<open>
  \<^verbatim>\<open>for k := range ac.items\<close> visits every entry of the map once, in an order the language
  does not fix. The keys in the order of one run are a parameter of the model.
\<close>

definition range_order :: "gomap \<Rightarrow> any list \<Rightarrow> bool" where
  "range_order m order \<longleftrightarrow> mset order = stored_keys m"

fun Keys_loop :: "any list \<Rightarrow> slice \<Rightarrow> heap \<Rightarrow> slice \<times> heap" where
  "Keys_loop [] ret h = (ret, h)"
| "Keys_loop (k # ks) ret h = (case append_go ret k h of (ret', h') \<Rightarrow> Keys_loop ks ret' h')"

definition Keys :: "AnyCache \<Rightarrow> any list \<Rightarrow> heap \<Rightarrow> panic + (slice \<times> heap)" where
  "Keys ac order h =
     (case makeslice (maplen (map_objs h (items ac))) h of
        (ret, h') \<Rightarrow> Inr (Keys_loop order ret h'))"

definition Flush :: "AnyCache \<Rightarrow> heap \<Rightarrow> panic + heap" where
  "Flush ac h = Inr (h\<lparr>map_objs := (map_objs h)(items ac := mapclear (map_objs h (items ac)))\<rparr>)"

definition Len :: "AnyCache \<Rightarrow> heap \<Rightarrow> panic + (int \<times> heap)" where
  "Len ac h = Inr (int (maplen (map_objs h (items ac))), h)"


section \<open>Sequences of calls\<close>

text \<open>
  The map the cache refers to; the statements below are about it.
\<close>

definition entries :: "AnyCache \<Rightarrow> heap \<Rightarrow> gomap" where
  "entries ac h = map_objs h (items ac)"

text \<open>
  A caller's calls on one cache, and the heap they leave. A call that panics has written
  nothing when it panics, so it leaves the heap as it found it.
\<close>

datatype call = CallSet any any | CallGet any | CallKeys "any list" | CallFlush | CallLen

fun after_call :: "AnyCache \<Rightarrow> call \<Rightarrow> heap \<Rightarrow> heap" where
  "after_call ac (CallSet k v) h = (case Set ac k v h of Inl p \<Rightarrow> h | Inr (r, h') \<Rightarrow> h')"
| "after_call ac (CallGet k) h = (case Get ac k h of Inl p \<Rightarrow> h | Inr (r, h') \<Rightarrow> h')"
| "after_call ac (CallKeys order) h = (case Keys ac order h of Inl p \<Rightarrow> h | Inr (s, h') \<Rightarrow> h')"
| "after_call ac CallFlush h = (case Flush ac h of Inl p \<Rightarrow> h | Inr h' \<Rightarrow> h')"
| "after_call ac CallLen h = (case Len ac h of Inl p \<Rightarrow> h | Inr (n, h') \<Rightarrow> h')"

fun after_calls :: "AnyCache \<Rightarrow> call list \<Rightarrow> heap \<Rightarrow> heap" where
  "after_calls ac [] h = h"
| "after_calls ac (c # cs) h = after_calls ac cs (after_call ac c h)"

fun is_Set_of :: "any \<Rightarrow> call \<Rightarrow> bool" where
  "is_Set_of k (CallSet k' v) = (k' = k)"
| "is_Set_of k c = False"

text \<open>The elements of the slice that \<open>Keys\<close> returned, if it returned.\<close>

definition keys_elems :: "panic + (slice \<times> heap) \<Rightarrow> panic + any list" where
  "keys_elems r = map_sum id (\<lambda>(s, h). slice_elems h s) r"

text \<open>A slice whose backing array is allocated and has the slice's capacity.\<close>

definition wf_slice :: "heap \<Rightarrow> slice \<Rightarrow> bool" where
  "wf_slice h s \<longleftrightarrow> len s \<le> cap s \<and> length (array_objs h (ptr s)) = cap s \<and> ptr s < next_array h"

text \<open>The map after a write of \<open>v\<close> under a key that can be hashed.\<close>

definition with_entry :: "gomap \<Rightarrow> any \<Rightarrow> any \<Rightarrow> gomap" where
  "with_entry m k v =
     (if reflexive k then m\<lparr>cells := fmupd k v (cells m)\<rparr> else m\<lparr>loose := loose m @ [(k, v)]\<rparr>)"

text \<open>
  Only entries whose key is not equal to itself are loose. This holds of the empty map and
  every write keeps it, so it holds in every cache made by \<open>New\<close>.
\<close>

definition loose_irreflexive :: "gomap \<Rightarrow> bool" where
  "loose_irreflexive m \<longleftrightarrow> (\<forall>e \<in> set (loose m). \<not> reflexive (fst e))"


section \<open>Example data\<close>

text \<open>
  The keys and values of the package's tests and of the example programs: the strings of
  \<^verbatim>\<open>TestAnyCache_Set\<close>, and the two struct types of the example \<^verbatim>\<open>main\<close>, of which
  \<^verbatim>\<open>incmpUser\<close> starts with a field of type \<^verbatim>\<open>[0]func()\<close>. Further a key that is
  not-a-number (\<^verbatim>\<open>math.NaN()\<close>), and a struct of the comparable type
  \<^verbatim>\<open>struct{ x any }\<close> whose field holds the slice \<^verbatim>\<open>[]int{1}\<close>.
\<close>

definition empty_heap :: heap where
  "empty_heap = \<lparr>map_objs = (\<lambda>a. emptymap), array_objs = (\<lambda>a. []), next_map = 0, next_array = 0\<rparr>"

definition cmpUser :: gotype where
  "cmpUser = TStruct ''cmpUser'' [TString, TInt]"

definition incmpUser :: gotype where
  "incmpUser = TStruct ''incmpUser'' [TArray 0 TFunc, TString, TInt]"

definition boxed :: gotype where
  "boxed = TStruct ''boxed'' [TInterface]"

definition bradford_cmp :: any where
  "bradford_cmp = Dyn cmpUser (VElems [VString ''bradford'', VInt 34])"

definition bradford_incmp :: any where
  "bradford_incmp = Dyn incmpUser (VElems [VElems [], VString ''bradford'', VInt 34])"

definition boxed_slice :: any where
  "boxed_slice = Dyn boxed (VElems [VDyn (TSlice TInt) (VElems [VInt 1])])"

definition nan_key :: any where
  "nan_key = Dyn TFloat64 (VFloat NaN)"

definition key1 :: any where
  "key1 = Dyn TString (VString ''key1'')"

definition key2 :: any where
  "key2 = Dyn TString (VString ''key2'')"

definition value1 :: any where
  "value1 = Dyn TString (VString ''value1'')"

definition value2 :: any where
  "value2 = Dyn TString (VString ''value2'')"

text \<open>The cache and the heap that \<open>New 10\<close> makes on the empty heap, and the heaps after
  setting \<open>key1\<close> and then \<open>key2\<close>.\<close>

definition cache0 :: AnyCache where
  "cache0 = \<lparr>items = 0\<rparr>"

definition heap0 :: heap where
  "heap0 = \<lparr>map_objs = (\<lambda>a. emptymap), array_objs = (\<lambda>a. []), next_map = 1, next_array = 0\<rparr>"

definition heap1 :: heap where
  "heap1 = heap0\<lparr>map_objs := (map_objs heap0)(0 := \<lparr>cells = fmupd key1 value1 fmempty, loose = []\<rparr>)\<rparr>"

definition heap2 :: heap where
  "heap2 = heap0\<lparr>map_objs := (map_objs heap0)
     (0 := \<lparr>cells = fmupd key2 value2 (fmupd key1 value1 fmempty), loose = []\<rparr>)\<rparr>"

text \<open>The heaps after setting \<open>nan_key\<close> in the new cache: to \<open>value1\<close>, then once more to
  \<open>value2\<close>; and to the nil value.\<close>

definition heap_nan1 :: heap where
  "heap_nan1 = heap0\<lparr>map_objs := (map_objs heap0)
     (0 := \<lparr>cells = fmempty, loose = [(nan_key, value1)]\<rparr>)\<rparr>"

definition heap_nan2 :: heap where
  "heap_nan2 = heap0\<lparr>map_objs := (map_objs heap0)
     (0 := \<lparr>cells = fmempty, loose = [(nan_key, value1), (nan_key, value2)]\<rparr>)\<rparr>"

definition heap_nan_nil :: heap where
  "heap_nan_nil = heap0\<lparr>map_objs := (map_objs heap0)
     (0 := \<lparr>cells = fmempty, loose = [(nan_key, GoNil)]\<rparr>)\<rparr>"

text \<open>
  The integer keys that the example programs set (\<^verbatim>\<open>ac.Set(i, ...)\<close> for \<open>i\<close> counting up),
  and the calls that set the first \<open>m\<close> of them.
\<close>

definition int_key :: "nat \<Rightarrow> any" where
  "int_key i = Dyn TInt (VInt (int i))"

definition fill :: "nat \<Rightarrow> call list" where
  "fill m = map (\<lambda>i. CallSet (int_key i) GoNil) [0..<m]"


section \<open>Properties of the map and of the methods\<close>

subsection \<open>Map reads and writes\<close>

lemma hashable_Dyn: "hashable (Dyn t v) \<longleftrightarrow> comparable t \<and> val_hash_error v = None"
  by (simp add: hashable_def)

lemma go_eq_sym: "go_eq a b \<Longrightarrow> go_eq b a"
  by (auto simp add: go_eq_def)

lemma go_eq_refl_iff: "go_eq a a \<longleftrightarrow> reflexive a"
  by (simp add: go_eq_def)

lemma mapaccess2_hashable:
  "hashable key \<Longrightarrow> mapaccess2 m key =
     (if reflexive key then
        (case fmlookup (cells m) key of None \<Rightarrow> Inr (GoNil, False) | Some v \<Rightarrow> Inr (v, True))
      else Inr (GoNil, False))"
  by (simp add: mapaccess2_def hashable_def)

lemma mapaccess2_finds:
  "hashable key \<Longrightarrow>
     mapaccess2 m key = Inr (v, True) \<longleftrightarrow> (\<exists>k. fmlookup (cells m) k = Some v \<and> go_eq k key)"
  by (auto simp add: mapaccess2_hashable go_eq_def split: option.splits)

lemma mapassign_hashable: "hashable key \<Longrightarrow> mapassign m key v = Inr (with_entry m key v)"
  by (simp add: mapassign_def hashable_def with_entry_def)

lemma mapaccess2_unhashable:
  "\<not> hashable key \<Longrightarrow> \<exists>p. mapKeyError key = Some p \<and> mapaccess2 m key = Inl p"
  by (auto simp add: mapaccess2_def hashable_def)

lemma lookup_with_entry:
  "fmlookup (cells (with_entry m k v)) k' =
     (if reflexive k \<and> k = k' then Some v else fmlookup (cells m) k')"
  by (auto simp add: with_entry_def)

lemma loose_with_entry:
  "loose (with_entry m k v) = (if reflexive k then loose m else loose m @ [(k, v)])"
  by (simp add: with_entry_def)

lemma maplen_size: "maplen m = size (stored_keys m)"
  by (simp add: maplen_def stored_keys_def)

lemma stored_keys_emptymap: "stored_keys emptymap = {#}"
  by (simp add: stored_keys_def emptymap_def)

lemma stored_keys_with_entry:
  "stored_keys (with_entry m k v) =
     (if reflexive k \<and> k \<in> fmdom' (cells m) then stored_keys m else add_mset k (stored_keys m))"
  by (auto simp add: stored_keys_def with_entry_def insert_absorb)

lemma set_stored_keys_with_entry:
  "set_mset (stored_keys (with_entry m k v)) = insert k (set_mset (stored_keys m))"
proof -
  have "reflexive k \<and> k \<in> fmdom' (cells m) \<Longrightarrow> k \<in># stored_keys m"
    by (simp add: stored_keys_def)
  then show ?thesis by (auto simp add: stored_keys_with_entry)
qed

lemma maplen_with_entry:
  "maplen (with_entry m k v) =
     (if reflexive k \<and> k \<in> fmdom' (cells m) then maplen m else maplen m + 1)"
  by (simp add: maplen_size stored_keys_with_entry)

lemma range_order_length: "range_order m order \<Longrightarrow> length order = maplen m"
  by (metis range_order_def maplen_size size_mset)



lemma Set_hashable:
  "hashable key \<Longrightarrow>
   Set ac key v h =
     Inr ((\<lparr>Key = key, Value = v\<rparr>, reflexive key \<and> key \<in> fmdom' (cells (entries ac h))),
          h\<lparr>map_objs := (map_objs h)(items ac := with_entry (entries ac h) key v)\<rparr>)"
  by (auto simp add: Set_def entries_def mapaccess2_hashable mapassign_hashable
      fmlookup_dom'_iff split: option.splits)

lemma Set_unhashable:
  "\<not> hashable key \<Longrightarrow> \<exists>p. mapKeyError key = Some p \<and> Set ac key v h = Inl p"
  using mapaccess2_unhashable [of key "map_objs h (items ac)"] by (auto simp add: Set_def)

lemma Get_hashable:
  "hashable key \<Longrightarrow>
   Get ac key h =
     (case (if reflexive key then fmlookup (cells (entries ac h)) key else None) of
        None \<Rightarrow> Inr ((\<lparr>Key = GoNil, Value = GoNil\<rparr>, False), h)
      | Some v \<Rightarrow> Inr ((\<lparr>Key = key, Value = v\<rparr>, True), h))"
  by (simp add: Get_def entries_def mapaccess2_hashable split: option.splits)

lemma Get_unhashable:
  "\<not> hashable key \<Longrightarrow> \<exists>p. mapKeyError key = Some p \<and> Get ac key h = Inl p"
  using mapaccess2_unhashable [of key "map_objs h (items ac)"] by (auto simp add: Get_def)

lemma Get_frame: "Get ac k h = Inr (x, h') \<Longrightarrow> h' = h"
  by (auto simp add: Get_def split: sum.splits prod.splits if_splits)

subsection \<open>Slices\<close>

lemma makeslice_wf: "makeslice n h = (s, h') \<Longrightarrow> wf_slice h' s \<and> slice_elems h' s = []"
  by (auto simp add: makeslice_def wf_slice_def slice_elems_def)

lemma makeslice_frame:
  "makeslice n h = (s, h') \<Longrightarrow>
     map_objs h' = map_objs h \<and> next_map h' = next_map h \<and> ptr s = next_array h \<and>
     next_array h' = Suc (next_array h) \<and> (\<forall>a. a \<noteq> next_array h \<longrightarrow> array_objs h' a = array_objs h a)"
  by (auto simp add: makeslice_def)

lemma growcap_gt: "c < growcap c"
  by (simp add: growcap_def)

lemma append_go_elems:
  assumes "wf_slice h s" and "append_go s x h = (s', h')"
  shows "wf_slice h' s' \<and> slice_elems h' s' = slice_elems h s @ [x]"
proof (cases "len s < cap s")
  case True
  with assms show ?thesis
    by (auto simp add: append_go_def wf_slice_def slice_elems_def take_Suc_conv_app_nth)
next
  case False
  with assms have l: "len s = cap s" by (simp add: wf_slice_def)
  from growcap_gt [of "cap s"] have "Suc (cap s) \<le> growcap (cap s)" by simp
  with False assms l show ?thesis
    by (auto simp add: append_go_def wf_slice_def slice_elems_def)
qed

lemma append_go_frame:
  assumes "append_go s x h = (s', h')"
  shows "map_objs h' = map_objs h \<and> next_map h' = next_map h \<and> next_array h \<le> next_array h' \<and>
         (ptr s' = ptr s \<or> ptr s' = next_array h) \<and>
         (\<forall>a. a \<noteq> ptr s \<and> a \<noteq> next_array h \<longrightarrow> array_objs h' a = array_objs h a)"
  using assms by (auto simp add: append_go_def split: if_splits)

lemma append_go_in_place:
  "len s < cap s \<Longrightarrow> append_go s x h = (s', h') \<Longrightarrow>
     ptr s' = ptr s \<and> cap s' = cap s \<and> len s' = Suc (len s) \<and> next_array h' = next_array h"
  by (auto simp add: append_go_def)

lemma Keys_loop_elems:
  "wf_slice h s \<Longrightarrow> Keys_loop ks s h = (s', h') \<Longrightarrow>
     wf_slice h' s' \<and> slice_elems h' s' = slice_elems h s @ ks"
proof (induction ks arbitrary: s h)
  case Nil
  then show ?case by simp
next
  case (Cons k ks)
  obtain s1 h1 where a: "append_go s k h = (s1, h1)" by (cases "append_go s k h")
  with Cons.prems have l: "Keys_loop ks s1 h1 = (s', h')" by simp
  from append_go_elems [OF Cons.prems(1) a]
  have "wf_slice h1 s1" and "slice_elems h1 s1 = slice_elems h s @ [k]" by simp_all
  with Cons.IH [OF _ l] show ?case by simp
qed

lemma Keys_loop_frame:
  "b \<le> ptr s \<Longrightarrow> ptr s < next_array h \<Longrightarrow> Keys_loop ks s h = (s', h') \<Longrightarrow>
     map_objs h' = map_objs h \<and> next_map h' = next_map h \<and> next_array h \<le> next_array h' \<and>
     b \<le> ptr s' \<and> ptr s' < next_array h' \<and> (\<forall>a < b. array_objs h' a = array_objs h a)"
proof (induction ks arbitrary: s h)
  case Nil
  then show ?case by simp
next
  case (Cons k ks)
  obtain s1 h1 where a: "append_go s k h = (s1, h1)" by (cases "append_go s k h")
  with Cons.prems have l: "Keys_loop ks s1 h1 = (s', h')" by simp
  from append_go_frame [OF a] Cons.prems(1,2)
  have f: "map_objs h1 = map_objs h" "next_map h1 = next_map h" "next_array h \<le> next_array h1"
    "b \<le> ptr s1" "\<forall>a < b. array_objs h1 a = array_objs h a"
    by auto
  from a Cons.prems(2) have p: "ptr s1 < next_array h1"
    by (auto simp add: append_go_def split: if_splits)
  from Cons.IH [OF f(4) p l] f show ?case by simp
qed

lemma Keys_loop_in_place:
  "len s + length ks \<le> cap s \<Longrightarrow> Keys_loop ks s h = (s', h') \<Longrightarrow>
     ptr s' = ptr s \<and> cap s' = cap s \<and> len s' = len s + length ks \<and> next_array h' = next_array h"
proof (induction ks arbitrary: s h)
  case Nil
  then show ?case by simp
next
  case (Cons k ks)
  obtain s1 h1 where a: "append_go s k h = (s1, h1)" by (cases "append_go s k h")
  with Cons.prems have l: "Keys_loop ks s1 h1 = (s', h')" by simp
  from Cons.prems(1) have "len s < cap s" by simp
  from append_go_in_place [OF this a] Cons.prems(1) Cons.IH [OF _ l] show ?case by simp
qed

subsection \<open>What each method does to the heap\<close>

lemma Keys_returns: "\<exists>s h'. Keys ac order h = Inr (s, h')"
  by (simp add: Keys_def split: prod.splits)

lemma Keys_elems: "Keys ac order h = Inr (s, h') \<Longrightarrow> wf_slice h' s \<and> slice_elems h' s = order"
proof -
  assume k: "Keys ac order h = Inr (s, h')"
  obtain s0 h0 where m: "makeslice (maplen (map_objs h (items ac))) h = (s0, h0)"
    by (cases "makeslice (maplen (map_objs h (items ac))) h")
  with k have l: "Keys_loop order s0 h0 = (s, h')" by (simp add: Keys_def)
  from makeslice_wf [OF m] Keys_loop_elems [OF _ l] show ?thesis by simp
qed

lemma Keys_frame:
  assumes "Keys ac order h = Inr (s, h')"
  shows "map_objs h' = map_objs h \<and> next_map h' = next_map h \<and> next_array h < next_array h' \<and>
         next_array h \<le> ptr s \<and> ptr s < next_array h' \<and>
         (\<forall>a < next_array h. array_objs h' a = array_objs h a)"
proof -
  obtain s0 h0 where m: "makeslice (maplen (map_objs h (items ac))) h = (s0, h0)"
    by (cases "makeslice (maplen (map_objs h (items ac))) h")
  with assms have l: "Keys_loop order s0 h0 = (s, h')" by (simp add: Keys_def)
  from makeslice_frame [OF m]
  have f: "map_objs h0 = map_objs h" "next_map h0 = next_map h" "ptr s0 = next_array h"
    "next_array h0 = Suc (next_array h)" "\<forall>a < next_array h. array_objs h0 a = array_objs h a"
    by auto
  from f have "next_array h \<le> ptr s0" "ptr s0 < next_array h0" by simp_all
  from Keys_loop_frame [OF this l] f show ?thesis by simp
qed

text \<open>
  When the iteration visits each entry once, the array that \<open>Keys\<close> allocates is exactly
  full at the end and \<open>append_go\<close> never moves it: how \<open>growcap\<close> grows a full array
  does not matter to \<open>Keys\<close>.
\<close>

lemma Keys_in_place:
  assumes "range_order (entries ac h) order" and "Keys ac order h = Inr (s, h')"
  shows "ptr s = next_array h \<and> len s = maplen (entries ac h) \<and> cap s = maplen (entries ac h) \<and>
         next_array h' = Suc (next_array h)"
proof -
  obtain s0 h0 where m: "makeslice (maplen (map_objs h (items ac))) h = (s0, h0)"
    by (cases "makeslice (maplen (map_objs h (items ac))) h")
  with assms(2) have l: "Keys_loop order s0 h0 = (s, h')" by (simp add: Keys_def)
  from assms(1) have n: "length order = maplen (entries ac h)"
    by (rule range_order_length)
  with m have f: "len s0 + length order \<le> cap s0" "len s0 = 0" "cap s0 = maplen (entries ac h)"
    "ptr s0 = next_array h" "next_array h0 = Suc (next_array h)"
    by (auto simp add: makeslice_def entries_def)
  from Keys_loop_in_place [OF f(1) l] f n show ?thesis by simp
qed

lemma entries_Keys: "Keys ac order h = Inr (s, h') \<Longrightarrow> entries ac' h' = entries ac' h"
  using Keys_frame [of ac order h s h'] by (simp add: entries_def)

lemma Flush_returns:
  "\<exists>h'. Flush ac h = Inr h' \<and> entries ac h' = emptymap \<and> array_objs h' = array_objs h \<and>
     next_array h' = next_array h"
  by (simp add: Flush_def entries_def mapclear_def)

lemma entries_Flush: "Flush ac h = Inr h' \<Longrightarrow> entries ac h' = emptymap"
  by (auto simp add: Flush_def entries_def mapclear_def)

lemma Len_returns: "Len ac h = Inr (int (maplen (entries ac h)), h)"
  by (simp add: Len_def entries_def)

lemma entries_Set: "Set ac k v h = Inr (r, h') \<Longrightarrow> entries ac h' = with_entry (entries ac h) k v"
proof (cases "hashable k")
  case True
  assume "Set ac k v h = Inr (r, h')"
  with True show ?thesis by (auto simp add: Set_hashable entries_def)
next
  case False
  assume "Set ac k v h = Inr (r, h')"
  with Set_unhashable [OF False, of ac v h] show ?thesis by auto
qed

lemma Set_Inr_hashable: "Set ac k v h = Inr x \<Longrightarrow> hashable k"
  using Set_unhashable [of k ac v h] by auto

lemma entries_after_call:
  "entries ac (after_call ac c h) =
     (case c of
        CallSet k v \<Rightarrow> if hashable k then with_entry (entries ac h) k v else entries ac h
      | CallFlush \<Rightarrow> emptymap
      | _ \<Rightarrow> entries ac h)"
proof (cases c)
  case (CallSet k v)
  show ?thesis
  proof (cases "hashable k")
    case True
    with CallSet show ?thesis by (simp add: Set_hashable entries_def)
  next
    case False
    from Set_unhashable [OF False] obtain p where "Set ac k v h = Inl p" by blast
    with CallSet False show ?thesis by simp
  qed
next
  case (CallGet k)
  then show ?thesis by (auto simp add: Get_def split: sum.splits prod.splits if_splits)
next
  case (CallKeys order)
  from Keys_returns obtain s h' where k: "Keys ac order h = Inr (s, h')" by blast
  with CallKeys entries_Keys [OF k] show ?thesis by simp
next
  case CallFlush
  then show ?thesis by (simp add: Flush_def entries_def mapclear_def)
next
  case CallLen
  then show ?thesis by (simp add: Len_def)
qed



lemma lookup_after_calls_absent:
  "fmlookup (cells (entries ac h)) k = None \<Longrightarrow> \<forall>c \<in> set cs. \<not> is_Set_of k c \<Longrightarrow>
     fmlookup (cells (entries ac (after_calls ac cs h))) k = None"
proof (induction cs arbitrary: h)
  case Nil
  then show ?case by simp
next
  case (Cons c cs)
  from Cons.prems have "fmlookup (cells (entries ac (after_call ac c h))) k = None"
    by (cases c) (simp_all add: entries_after_call with_entry_def emptymap_def del: after_call.simps)
  with Cons.IH [of "after_call ac c h"] Cons.prems(2) show ?case by simp
qed

lemma lookup_after_calls_present:
  "fmlookup (cells (entries ac h)) k = Some v \<Longrightarrow>
   \<forall>c \<in> set cs. c \<noteq> CallFlush \<and> \<not> is_Set_of k c \<Longrightarrow>
     fmlookup (cells (entries ac (after_calls ac cs h))) k = Some v"
proof (induction cs arbitrary: h)
  case Nil
  then show ?case by simp
next
  case (Cons c cs)
  from Cons.prems have "fmlookup (cells (entries ac (after_call ac c h))) k = Some v"
    by (cases c) (simp_all add: entries_after_call with_entry_def del: after_call.simps)
  with Cons.IH [of "after_call ac c h"] Cons.prems(2) show ?case by simp
qed

lemma after_calls_append: "after_calls ac (cs @ ds) h = after_calls ac ds (after_calls ac cs h)"
  by (induction cs arbitrary: h) simp_all

subsection \<open>Loose entries\<close>

lemma loose_irreflexive_with_entry:
  "loose_irreflexive m \<Longrightarrow> loose_irreflexive (with_entry m k v)"
  by (auto simp add: loose_irreflexive_def with_entry_def)

lemma loose_irreflexive_after_calls:
  "loose_irreflexive (entries ac h) \<Longrightarrow> loose_irreflexive (entries ac (after_calls ac cs h))"
proof (induction cs arbitrary: h)
  case Nil
  then show ?case by simp
next
  case (Cons c cs)
  from Cons.prems have "loose_irreflexive (entries ac (after_call ac c h))"
    by (cases c)
      (simp_all add: entries_after_call loose_irreflexive_with_entry del: after_call.simps,
        simp add: loose_irreflexive_def emptymap_def)
  with Cons.IH [of "after_call ac c h"] show ?case by simp
qed

lemma entries_New: "New n h = Inr (ac, hnew) \<Longrightarrow> entries ac hnew = emptymap"
  by (auto simp add: New_def makemap_def entries_def split: if_splits)

lemma loose_irreflexive_reachable:
  "New n h = Inr (ac, hnew) \<Longrightarrow> loose_irreflexive (entries ac (after_calls ac cs hnew))"
  by (rule loose_irreflexive_after_calls)
    (simp add: entries_New loose_irreflexive_def emptymap_def)




lemma stored_key_iff_cell:
  assumes "loose_irreflexive m" and "reflexive k"
  shows "k \<in># stored_keys m \<longleftrightarrow> k \<in> fmdom' (cells m)"
proof -
  from assms have "k \<notin> fst ` set (loose m)" by (auto simp add: loose_irreflexive_def)
  then show ?thesis by (simp add: stored_keys_def)
qed

subsection \<open>The example data\<close>

lemma New_10: "New 10 empty_heap = Inr (cache0, heap0)"
  by (simp add: New_def maxCacheSize_def makemap_def empty_heap_def cache0_def heap0_def
      fun_upd_idem_iff)

lemma New_1: "New 1 empty_heap = Inr (cache0, heap0)"
  by (simp add: New_def maxCacheSize_def makemap_def empty_heap_def cache0_def heap0_def
      fun_upd_idem_iff)

lemma hashable_key1: "hashable key1"
  by (simp add: hashable_def key1_def)

lemma hashable_key2: "hashable key2"
  by (simp add: hashable_def key2_def)

lemma reflexive_key1: "reflexive key1"
  by (simp add: key1_def)

lemma reflexive_key2: "reflexive key2"
  by (simp add: key2_def)

lemma key1_neq_key2: "key1 \<noteq> key2"
  by (simp add: key1_def key2_def)

lemma hashable_nan_key: "hashable nan_key"
  by (simp add: hashable_def nan_key_def)

lemma irreflexive_nan_key: "\<not> reflexive nan_key"
  by (simp add: nan_key_def)

lemma hashable_GoNil: "hashable GoNil"
  by (simp add: hashable_def)

lemma entries_heap0: "entries cache0 heap0 = emptymap"
  by (simp add: entries_def cache0_def heap0_def)

lemma entries_heap1: "entries cache0 heap1 = \<lparr>cells = fmupd key1 value1 fmempty, loose = []\<rparr>"
  by (simp add: entries_def cache0_def heap1_def)

lemma entries_heap2:
  "entries cache0 heap2 = \<lparr>cells = fmupd key2 value2 (fmupd key1 value1 fmempty), loose = []\<rparr>"
  by (simp add: entries_def cache0_def heap2_def)

lemma entries_heap_nan1: "entries cache0 heap_nan1 = \<lparr>cells = fmempty, loose = [(nan_key, value1)]\<rparr>"
  by (simp add: entries_def cache0_def heap_nan1_def)

lemma entries_heap_nan2:
  "entries cache0 heap_nan2 = \<lparr>cells = fmempty, loose = [(nan_key, value1), (nan_key, value2)]\<rparr>"
  by (simp add: entries_def cache0_def heap_nan2_def)

lemma entries_heap_nan_nil: "entries cache0 heap_nan_nil = \<lparr>cells = fmempty, loose = [(nan_key, GoNil)]\<rparr>"
  by (simp add: entries_def cache0_def heap_nan_nil_def)

lemma Set_key1_heap0:
  "Set cache0 key1 value1 heap0 = Inr ((\<lparr>Key = key1, Value = value1\<rparr>, False), heap1)"
  by (simp add: Set_hashable hashable_key1 reflexive_key1 entries_heap0 with_entry_def emptymap_def)
     (simp add: heap1_def cache0_def)

lemma Set_key2_heap1:
  "Set cache0 key2 value2 heap1 = Inr ((\<lparr>Key = key2, Value = value2\<rparr>, False), heap2)"
  by (simp add: Set_hashable hashable_key2 reflexive_key2 entries_heap1 with_entry_def
      key1_neq_key2 [symmetric])
     (simp add: heap1_def heap2_def cache0_def)

lemma Set_nan_heap0:
  "Set cache0 nan_key value1 heap0 = Inr ((\<lparr>Key = nan_key, Value = value1\<rparr>, False), heap_nan1)"
  by (simp add: Set_hashable hashable_nan_key irreflexive_nan_key entries_heap0 with_entry_def
      emptymap_def)
     (simp add: heap_nan1_def cache0_def)

lemma Set_nan_heap_nan1:
  "Set cache0 nan_key value2 heap_nan1 =
     Inr ((\<lparr>Key = nan_key, Value = value2\<rparr>, False), heap_nan2)"
  by (simp add: Set_hashable hashable_nan_key irreflexive_nan_key entries_heap_nan1 with_entry_def)
     (simp add: heap_nan1_def heap_nan2_def cache0_def)

lemma Set_nan_nil_heap0:
  "Set cache0 nan_key GoNil heap0 = Inr ((\<lparr>Key = nan_key, Value = GoNil\<rparr>, False), heap_nan_nil)"
  by (simp add: Set_hashable hashable_nan_key irreflexive_nan_key entries_heap0 with_entry_def
      emptymap_def)
     (simp add: heap_nan_nil_def cache0_def)

lemma Get_nan: "Get cache0 nan_key h = Inr ((\<lparr>Key = GoNil, Value = GoNil\<rparr>, False), h)"
  by (simp add: Get_hashable hashable_nan_key irreflexive_nan_key)



lemma after_Set_key1: "after_calls cache0 [CallSet key1 value1] heap0 = heap1"
  by (simp add: Set_key1_heap0)

subsection \<open>Filling the cache\<close>

lemma hashable_int_key: "hashable (int_key i)"
  by (simp add: hashable_def int_key_def)

lemma reflexive_int_key: "reflexive (int_key i)"
  by (simp add: int_key_def)

lemma inj_int_key: "inj int_key"
  by (simp add: inj_def int_key_def)

lemma entries_after_fill:
  "loose (entries ac (after_calls ac (fill m) h)) = loose (entries ac h) \<and>
   fmdom' (cells (entries ac (after_calls ac (fill m) h))) =
     fmdom' (cells (entries ac h)) \<union> int_key ` {0..<m}"
proof (induction m)
  case 0
  then show ?case by (simp add: fill_def)
next
  case (Suc m)
  have "fill (Suc m) = fill m @ [CallSet (int_key m) GoNil]" by (simp add: fill_def)
  then have "entries ac (after_calls ac (fill (Suc m)) h) =
      with_entry (entries ac (after_calls ac (fill m) h)) (int_key m) GoNil"
    by (simp add: after_calls_append entries_after_call hashable_int_key del: after_call.simps)
  then have e: "entries ac (after_calls ac (fill (Suc m)) h) =
      (entries ac (after_calls ac (fill m) h))
        \<lparr>cells := fmupd (int_key m) GoNil (cells (entries ac (after_calls ac (fill m) h)))\<rparr>"
    by (simp add: with_entry_def reflexive_int_key)
  from Suc.IH have i1: "loose (entries ac (after_calls ac (fill m) h)) = loose (entries ac h)"
    and i2: "fmdom' (cells (entries ac (after_calls ac (fill m) h))) =
     fmdom' (cells (entries ac h)) \<union> int_key ` {0..<m}"
    by simp_all
  have a: "loose (entries ac (after_calls ac (fill (Suc m)) h)) = loose (entries ac h)"
    unfolding e using i1 by simp
  have b: "fmdom' (cells (entries ac (after_calls ac (fill (Suc m)) h))) =
     fmdom' (cells (entries ac h)) \<union> int_key ` {0..<Suc m}"
    unfolding e using i2 by (auto simp add: atLeast0_lessThan_Suc)
  from a b show ?case by blast
qed

lemma Len_after_fill:
  assumes "entries ac h = emptymap"
  shows "Len ac (after_calls ac (fill m) h) = Inr (int m, after_calls ac (fill m) h)"
proof -
  let ?h = "after_calls ac (fill m) h"
  from entries_after_fill [of ac m h] assms
  have l: "loose (entries ac ?h) = []" and d: "fmdom' (cells (entries ac ?h)) = int_key ` {0..<m}"
    by (simp_all add: emptymap_def)
  have "card (int_key ` {0..<m}) = m"
    by (simp add: card_image inj_int_key inj_on_subset [OF inj_int_key])
  with l d show ?thesis by (simp add: Len_returns maplen_def)
qed


section \<open>The constructor\<close>

text \<open>
  C3. \<open>New c\<close> fails with \<open>ErrMinCacheSize\<close> for every \<open>c < 1\<close>, fails with
  \<open>ErrMaxCacheSize\<close> for every \<open>c \<ge> 524288000\<close>, the bound itself included, and for
  every other \<open>c\<close> returns a cache whose map is empty and whose \<open>Len\<close> is 0.
\<close>

theorem New_capacity_range:
  "(c < 1 \<longrightarrow> New c h = Inl ErrMinCacheSize) \<and>
   (c \<ge> 524288000 \<longrightarrow> New c h = Inl ErrMaxCacheSize) \<and>
   (1 \<le> c \<and> c < 524288000 \<longrightarrow>
      (\<exists>ac h'. New c h = Inr (ac, h') \<and> entries ac h' = emptymap \<and> Len ac h' = Inr (0, h')))"
  by (simp add: New_def maxCacheSize_def makemap_def entries_def Len_def maplen_def emptymap_def)

theorem New_capacity_range_witness:
  "New 0 empty_heap = Inl ErrMinCacheSize \<and>
   New 524288000 empty_heap = Inl ErrMaxCacheSize \<and>
   (\<exists>ac h'. New 1 empty_heap = Inr (ac, h') \<and> entries ac h' = emptymap \<and> Len ac h' = Inr (0, h')) \<and>
   (\<exists>ac h'. New 524287999 empty_heap = Inr (ac, h') \<and> entries ac h' = emptymap \<and>
      Len ac h' = Inr (0, h'))"
  using New_capacity_range [of 0 empty_heap] New_capacity_range [of 524288000 empty_heap]
    New_capacity_range [of 1 empty_heap] New_capacity_range [of 524287999 empty_heap]
  by simp


section \<open>Set and Get\<close>

text \<open>
  C1, as stated, fails. A key that is not-a-number can be hashed and is stored, but no
  lookup finds it: with one entry under \<open>nan_key\<close> in the map, a second \<open>Set\<close> with
  \<open>nan_key\<close> returns \<open>False\<close> and adds a second entry.
\<close>

theorem second_Set_of_NaN_key_returns_false:
  "Set cache0 nan_key value1 heap0 = Inr ((\<lparr>Key = nan_key, Value = value1\<rparr>, False), heap_nan1) \<and>
   nan_key \<in># stored_keys (entries cache0 heap_nan1) \<and>
   Set cache0 nan_key value2 heap_nan1 = Inr ((\<lparr>Key = nan_key, Value = value2\<rparr>, False), heap_nan2)"
  by (simp add: Set_nan_heap0 Set_nan_heap_nan1 entries_heap_nan1 stored_keys_def)

text \<open>
  C1, amended. For a key that can be hashed, \<open>Set\<close> returns the item made of its own two
  arguments, and its boolean is the hit flag that \<open>Get\<close> gives for the key just before the
  call: whether a lookup of the key finds an entry. For a key that is equal to itself this
  says whether the map holds an entry for the key, and a second \<open>Set\<close> of the same key
  returns the second value and \<open>True\<close>. For a key that is not equal to itself every \<open>Set\<close>
  returns \<open>False\<close> and adds an entry.
\<close>

theorem Set_item_and_overwritten:
  assumes "hashable k"
  shows "\<exists>r hit h1 h2.
           Get ac k h = Inr ((r, hit), h) \<and>
           hit = (reflexive k \<and> k \<in> fmdom' (cells (entries ac h))) \<and>
           (loose_irreflexive (entries ac h) \<and> reflexive k \<longrightarrow>
              hit = (k \<in># stored_keys (entries ac h))) \<and>
           Set ac k v h = Inr ((\<lparr>Key = k, Value = v\<rparr>, hit), h1) \<and>
           Set ac k v2 h1 = Inr ((\<lparr>Key = k, Value = v2\<rparr>, reflexive k), h2) \<and>
           (\<not> reflexive k \<longrightarrow>
              stored_keys (entries ac h1) = add_mset k (stored_keys (entries ac h)))"
proof -
  let ?hit = "reflexive k \<and> k \<in> fmdom' (cells (entries ac h))"
  let ?h1 = "h\<lparr>map_objs := (map_objs h)(items ac := with_entry (entries ac h) k v)\<rparr>"
  have s1: "Set ac k v h = Inr ((\<lparr>Key = k, Value = v\<rparr>, ?hit), ?h1)"
    by (rule Set_hashable [OF assms])
  have e: "entries ac ?h1 = with_entry (entries ac h) k v" by (simp add: entries_def)
  then have "(reflexive k \<and> k \<in> fmdom' (cells (entries ac ?h1))) = reflexive k"
    by (auto simp add: with_entry_def)
  with Set_hashable [OF assms, of ac v2 ?h1]
  have s2: "\<exists>h2. Set ac k v2 ?h1 = Inr ((\<lparr>Key = k, Value = v2\<rparr>, reflexive k), h2)" by simp
  have g: "\<exists>r. Get ac k h = Inr ((r, ?hit), h)"
    by (auto simp add: Get_hashable [OF assms] fmlookup_dom'_iff split: option.splits)
  from e have n: "\<not> reflexive k \<longrightarrow>
      stored_keys (entries ac ?h1) = add_mset k (stored_keys (entries ac h))"
    by (simp add: stored_keys_with_entry)
  have p: "loose_irreflexive (entries ac h) \<and> reflexive k \<longrightarrow>
      ?hit = (k \<in># stored_keys (entries ac h))"
    by (auto simp add: stored_key_iff_cell)
  from s1 s2 g n p show ?thesis by blast
qed

theorem Set_item_and_overwritten_witness:
  "hashable key1 \<and> reflexive key1 \<and> loose_irreflexive (entries cache0 heap0) \<and>
   key1 \<notin># stored_keys (entries cache0 heap0) \<and>
   (\<exists>r h1 h2. Get cache0 key1 heap0 = Inr ((r, False), heap0) \<and>
      Set cache0 key1 value1 heap0 = Inr ((\<lparr>Key = key1, Value = value1\<rparr>, False), h1) \<and>
      Set cache0 key1 value2 h1 = Inr ((\<lparr>Key = key1, Value = value2\<rparr>, True), h2)) \<and>
   hashable nan_key \<and> \<not> reflexive nan_key \<and>
   (\<exists>r h1 h2. Get cache0 nan_key heap0 = Inr ((r, False), heap0) \<and>
      Set cache0 nan_key value1 heap0 = Inr ((\<lparr>Key = nan_key, Value = value1\<rparr>, False), h1) \<and>
      Set cache0 nan_key value2 h1 = Inr ((\<lparr>Key = nan_key, Value = value2\<rparr>, False), h2) \<and>
      stored_keys (entries cache0 h1) = {#nan_key#})"
  using Set_item_and_overwritten [OF hashable_key1, of cache0 heap0 value1 value2]
    Set_item_and_overwritten [OF hashable_nan_key, of cache0 heap0 value1 value2]
  by (auto simp add: hashable_key1 reflexive_key1 hashable_nan_key irreflexive_nan_key
      entries_heap0 emptymap_def stored_keys_def loose_irreflexive_def)

text \<open>
  C2, as stated, fails: right after \<open>Set\<close> has stored a value under \<open>nan_key\<close>, with no
  call in between, \<open>Get\<close> of \<open>nan_key\<close> is a miss.
\<close>

theorem Get_of_NaN_key_misses_after_Set:
  "Set cache0 nan_key value1 heap0 = Inr ((\<lparr>Key = nan_key, Value = value1\<rparr>, False), heap_nan1) \<and>
   Get cache0 nan_key heap_nan1 = Inr ((\<lparr>Key = GoNil, Value = GoNil\<rparr>, False), heap_nan1)"
  by (simp add: Set_nan_heap0 Get_nan)

text \<open>
  C2, amended. In a cache made by \<open>New\<close>, after any calls that do not set \<open>k\<close>, \<open>Get k\<close>
  returns the zero item and \<open>False\<close>. After a \<open>Set k v\<close> that returned, with \<open>k\<close> equal to
  itself, and any calls that neither flush nor set \<open>k\<close>, \<open>Get k\<close> returns the item \<open>(k, v)\<close>
  and \<open>True\<close>. For a key that is not equal to itself \<open>Get\<close> is a miss in every state. A
  \<open>Get\<close> that returns leaves the heap as it was.
\<close>

theorem Get_miss_hit_and_frame:
  "(New n h = Inr (ac, hnew) \<and> hashable k \<and> (\<forall>c \<in> set cs. \<not> is_Set_of k c) \<longrightarrow>
      Get ac k (after_calls ac cs hnew) =
        Inr ((\<lparr>Key = GoNil, Value = GoNil\<rparr>, False), after_calls ac cs hnew)) \<and>
   (Set ac k v h = Inr (r, hset) \<and> reflexive k \<and>
    (\<forall>c \<in> set cs. c \<noteq> CallFlush \<and> \<not> is_Set_of k c) \<longrightarrow>
      Get ac k (after_calls ac cs hset) =
        Inr ((\<lparr>Key = k, Value = v\<rparr>, True), after_calls ac cs hset)) \<and>
   (hashable k \<and> \<not> reflexive k \<longrightarrow>
      Get ac k h = Inr ((\<lparr>Key = GoNil, Value = GoNil\<rparr>, False), h)) \<and>
   (\<forall>x h'. Get ac k h = Inr (x, h') \<longrightarrow> h' = h)"
proof (intro conjI impI allI)
  assume a: "New n h = Inr (ac, hnew) \<and> hashable k \<and> (\<forall>c \<in> set cs. \<not> is_Set_of k c)"
  then have "entries ac hnew = emptymap" by (auto dest: entries_New)
  then have "fmlookup (cells (entries ac hnew)) k = None" by (simp add: emptymap_def)
  from lookup_after_calls_absent [OF this] a
  have "fmlookup (cells (entries ac (after_calls ac cs hnew))) k = None" by simp
  with a show "Get ac k (after_calls ac cs hnew) =
        Inr ((\<lparr>Key = GoNil, Value = GoNil\<rparr>, False), after_calls ac cs hnew)"
    by (simp add: Get_hashable)
next
  assume a: "Set ac k v h = Inr (r, hset) \<and> reflexive k \<and>
    (\<forall>c \<in> set cs. c \<noteq> CallFlush \<and> \<not> is_Set_of k c)"
  then have hk: "hashable k" by (auto dest: Set_Inr_hashable)
  from a have "entries ac hset = with_entry (entries ac h) k v" by (auto dest: entries_Set)
  with a have "fmlookup (cells (entries ac hset)) k = Some v" by (simp add: with_entry_def)
  from lookup_after_calls_present [OF this] a
  have "fmlookup (cells (entries ac (after_calls ac cs hset))) k = Some v" by simp
  with hk a show "Get ac k (after_calls ac cs hset) =
        Inr ((\<lparr>Key = k, Value = v\<rparr>, True), after_calls ac cs hset)"
    by (simp add: Get_hashable)
next
  assume "hashable k \<and> \<not> reflexive k"
  then show "Get ac k h = Inr ((\<lparr>Key = GoNil, Value = GoNil\<rparr>, False), h)"
    by (simp add: Get_hashable)
next
  fix x h'
  assume "Get ac k h = Inr (x, h')"
  then show "h' = h" by (rule Get_frame)
qed

theorem Get_miss_hit_and_frame_witness:
  "New 10 empty_heap = Inr (cache0, heap0) \<and> hashable key1 \<and> reflexive key1 \<and>
   Get cache0 key1 (after_calls cache0 [CallSet key2 value2, CallGet key1, CallFlush] heap0) =
     Inr ((\<lparr>Key = GoNil, Value = GoNil\<rparr>, False),
          after_calls cache0 [CallSet key2 value2, CallGet key1, CallFlush] heap0) \<and>
   Set cache0 key1 value1 heap0 = Inr ((\<lparr>Key = key1, Value = value1\<rparr>, False), heap1) \<and>
   Get cache0 key1 (after_calls cache0 [CallSet key2 value2, CallLen, CallKeys [key2, key1]] heap1) =
     Inr ((\<lparr>Key = key1, Value = value1\<rparr>, True),
          after_calls cache0 [CallSet key2 value2, CallLen, CallKeys [key2, key1]] heap1) \<and>
   Get cache0 key1 heap1 = Inr ((\<lparr>Key = key1, Value = value1\<rparr>, True), heap1) \<and>
   hashable nan_key \<and> \<not> reflexive nan_key \<and>
   Get cache0 nan_key heap_nan2 = Inr ((\<lparr>Key = GoNil, Value = GoNil\<rparr>, False), heap_nan2)"
proof -
  have g: "Get cache0 key1 heap1 = Inr ((\<lparr>Key = key1, Value = value1\<rparr>, True), heap1)"
    by (simp add: Get_hashable hashable_key1 reflexive_key1 entries_heap1)
  from Get_miss_hit_and_frame [where n = 10 and h = empty_heap and ac = cache0 and hnew = heap0
      and k = key1 and cs = "[CallSet key2 value2, CallGet key1, CallFlush]"]
    Get_miss_hit_and_frame [where h = heap0 and ac = cache0 and hset = heap1 and v = value1
      and r = "(\<lparr>Key = key1, Value = value1\<rparr>, False)"
      and k = key1 and cs = "[CallSet key2 value2, CallLen, CallKeys [key2, key1]]"]
    Get_miss_hit_and_frame [where h = heap_nan2 and ac = cache0 and k = nan_key]
    New_10 hashable_key1 reflexive_key1 Set_key1_heap0 key1_neq_key2 g
    hashable_nan_key irreflexive_nan_key
  show ?thesis by (simp del: after_calls.simps)
qed

text \<open>
  C10, as stated, fails: after \<open>Set\<close> has stored the nil value under \<open>nan_key\<close>, \<open>Get\<close> of
  \<open>nan_key\<close> is a miss, not a hit.
\<close>

theorem nil_under_NaN_key_is_a_miss:
  "Set cache0 nan_key GoNil heap0 = Inr ((\<lparr>Key = nan_key, Value = GoNil\<rparr>, False), heap_nan_nil) \<and>
   Get cache0 nan_key heap_nan_nil = Inr ((\<lparr>Key = GoNil, Value = GoNil\<rparr>, False), heap_nan_nil)"
  by (simp add: Set_nan_nil_heap0 Get_nan)

text \<open>
  C10, amended. Setting a key to the nil value stores an entry: the key is among the
  elements \<open>Keys\<close> returns and \<open>Len\<close> counts it. If the key is equal to itself the next
  \<open>Get\<close> is a hit that returns the key with the nil value; if it is not, the next \<open>Get\<close> is
  a miss, as it is with any other value. The hit flag and the stored keys are the same
  whatever value is stored.
\<close>

theorem nil_value_is_present:
  assumes "hashable k"
  shows "\<exists>r hs. Set ac k GoNil h = Inr (r, hs) \<and>
           Get ac k hs =
             Inr (if reflexive k then (\<lparr>Key = k, Value = GoNil\<rparr>, True)
                  else (\<lparr>Key = GoNil, Value = GoNil\<rparr>, False), hs) \<and>
           (range_order (entries ac hs) order \<longrightarrow>
              (\<exists>s hk. Keys ac order hs = Inr (s, hk) \<and> k \<in> set (slice_elems hk s))) \<and>
           k \<in># stored_keys (entries ac hs) \<and>
           stored_keys (entries ac hs) =
             (if reflexive k \<and> k \<in> fmdom' (cells (entries ac h)) then stored_keys (entries ac h)
              else add_mset k (stored_keys (entries ac h))) \<and>
           (\<exists>n. Len ac hs = Inr (n, hs) \<and> n = int (size (stored_keys (entries ac hs))) \<and> 1 \<le> n) \<and>
           (\<forall>v. \<exists>r' hv x. Set ac k v h = Inr (r', hv) \<and> Get ac k hv = Inr ((x, reflexive k), hv) \<and>
                  stored_keys (entries ac hv) = stored_keys (entries ac hs))"
proof -
  let ?hs = "h\<lparr>map_objs := (map_objs h)(items ac := with_entry (entries ac h) k GoNil)\<rparr>"
  have s: "Set ac k GoNil h =
      Inr ((\<lparr>Key = k, Value = GoNil\<rparr>, reflexive k \<and> k \<in> fmdom' (cells (entries ac h))), ?hs)"
    by (rule Set_hashable [OF assms])
  have e: "entries ac ?hs = with_entry (entries ac h) k GoNil" by (simp add: entries_def)
  have g: "Get ac k ?hs =
      Inr (if reflexive k then (\<lparr>Key = k, Value = GoNil\<rparr>, True)
           else (\<lparr>Key = GoNil, Value = GoNil\<rparr>, False), ?hs)"
    by (simp add: Get_hashable [OF assms] e lookup_with_entry)
  from e have sk: "stored_keys (entries ac ?hs) =
             (if reflexive k \<and> k \<in> fmdom' (cells (entries ac h)) then stored_keys (entries ac h)
              else add_mset k (stored_keys (entries ac h)))"
    by (simp add: stored_keys_with_entry)
  then have m: "k \<in># stored_keys (entries ac ?hs)"
    by (auto simp add: stored_keys_def)
  have ks: "range_order (entries ac ?hs) order \<longrightarrow>
              (\<exists>s hk. Keys ac order ?hs = Inr (s, hk) \<and> k \<in> set (slice_elems hk s))"
  proof
    assume "range_order (entries ac ?hs) order"
    then have "mset order = stored_keys (entries ac ?hs)" by (simp add: range_order_def)
    with m have "k \<in># mset order" by simp
    then have o: "k \<in> set order" by simp
    from Keys_returns obtain s hk where r: "Keys ac order ?hs = Inr (s, hk)" by blast
    from Keys_elems [OF r] o have "k \<in> set (slice_elems hk s)" by simp
    with r show "\<exists>s hk. Keys ac order ?hs = Inr (s, hk) \<and> k \<in> set (slice_elems hk s)" by blast
  qed
  from m have "0 < size (stored_keys (entries ac ?hs))"
    by (cases "stored_keys (entries ac ?hs)") auto
  then have l: "\<exists>n. Len ac ?hs = Inr (n, ?hs) \<and> n = int (size (stored_keys (entries ac ?hs))) \<and> 1 \<le> n"
    by (simp add: Len_returns maplen_size)
  have v: "\<forall>v. \<exists>r' hv x. Set ac k v h = Inr (r', hv) \<and> Get ac k hv = Inr ((x, reflexive k), hv) \<and>
                  stored_keys (entries ac hv) = stored_keys (entries ac ?hs)"
  proof
    fix v
    let ?hv = "h\<lparr>map_objs := (map_objs h)(items ac := with_entry (entries ac h) k v)\<rparr>"
    have sv: "Set ac k v h =
        Inr ((\<lparr>Key = k, Value = v\<rparr>, reflexive k \<and> k \<in> fmdom' (cells (entries ac h))), ?hv)"
      by (rule Set_hashable [OF assms])
    have ev: "entries ac ?hv = with_entry (entries ac h) k v" by (simp add: entries_def)
    have gv: "\<exists>x. Get ac k ?hv = Inr ((x, reflexive k), ?hv)"
      by (simp add: Get_hashable [OF assms] ev lookup_with_entry)
    from ev e have "stored_keys (entries ac ?hv) = stored_keys (entries ac ?hs)"
      by (simp add: stored_keys_with_entry)
    with sv gv show "\<exists>r' hv x. Set ac k v h = Inr (r', hv) \<and> Get ac k hv = Inr ((x, reflexive k), hv) \<and>
                  stored_keys (entries ac hv) = stored_keys (entries ac ?hs)"
      by blast
  qed
  from s g ks m sk l v show ?thesis by blast
qed

theorem nil_value_is_present_witness:
  "hashable key1 \<and> reflexive key1 \<and> hashable GoNil \<and> reflexive GoNil \<and>
   hashable nan_key \<and> \<not> reflexive nan_key \<and>
   Get cache0 key1 heap0 = Inr ((\<lparr>Key = GoNil, Value = GoNil\<rparr>, False), heap0) \<and>
   Get cache0 GoNil heap0 = Inr ((\<lparr>Key = GoNil, Value = GoNil\<rparr>, False), heap0) \<and>
   (\<exists>r hs. Set cache0 key1 GoNil heap0 = Inr (r, hs) \<and>
      Get cache0 key1 hs = Inr ((\<lparr>Key = key1, Value = GoNil\<rparr>, True), hs) \<and>
      (\<exists>s hk. Keys cache0 [key1] hs = Inr (s, hk) \<and> key1 \<in> set (slice_elems hk s)) \<and>
      Len cache0 hs = Inr (1, hs)) \<and>
   (\<exists>r hs. Set cache0 GoNil GoNil heap0 = Inr (r, hs) \<and>
      Get cache0 GoNil hs = Inr ((\<lparr>Key = GoNil, Value = GoNil\<rparr>, True), hs) \<and>
      Len cache0 hs = Inr (1, hs)) \<and>
   (\<exists>r hs. Set cache0 nan_key GoNil heap0 = Inr (r, hs) \<and>
      Get cache0 nan_key hs = Inr ((\<lparr>Key = GoNil, Value = GoNil\<rparr>, False), hs) \<and>
      (\<exists>s hk. Keys cache0 [nan_key] hs = Inr (s, hk) \<and> nan_key \<in> set (slice_elems hk s)) \<and>
      Len cache0 hs = Inr (1, hs))"
proof -
  have r0: "reflexive GoNil" by simp
  have g1: "Get cache0 key1 heap0 = Inr ((\<lparr>Key = GoNil, Value = GoNil\<rparr>, False), heap0)"
    by (simp add: Get_hashable hashable_key1 entries_heap0 emptymap_def)
  have g2: "Get cache0 GoNil heap0 = Inr ((\<lparr>Key = GoNil, Value = GoNil\<rparr>, False), heap0)"
    by (simp add: Get_hashable hashable_GoNil entries_heap0 emptymap_def)
  have sk0: "stored_keys (entries cache0 heap0) = {#}"
    by (simp add: entries_heap0 stored_keys_emptymap)
  have c0: "cells (entries cache0 heap0) = fmempty" by (simp add: entries_heap0 emptymap_def)
  from nil_value_is_present [OF hashable_key1, of cache0 heap0 "[key1]"]
  obtain r hs where a: "Set cache0 key1 GoNil heap0 = Inr (r, hs)"
    "Get cache0 key1 hs = Inr ((\<lparr>Key = key1, Value = GoNil\<rparr>, True), hs)"
    "range_order (entries cache0 hs) [key1] \<longrightarrow>
       (\<exists>s hk. Keys cache0 [key1] hs = Inr (s, hk) \<and> key1 \<in> set (slice_elems hk s))"
    "stored_keys (entries cache0 hs) = {#key1#}"
    "\<exists>n. Len cache0 hs = Inr (n, hs) \<and> n = int (size (stored_keys (entries cache0 hs))) \<and> 1 \<le> n"
    by (auto simp add: reflexive_key1 sk0 c0)
  from a(4) a(3) have a3: "\<exists>s hk. Keys cache0 [key1] hs = Inr (s, hk) \<and> key1 \<in> set (slice_elems hk s)"
    by (simp add: range_order_def)
  from a(4) a(5) have a5: "Len cache0 hs = Inr (1, hs)" by auto
  from nil_value_is_present [OF hashable_GoNil, of cache0 heap0 "[GoNil]"]
  obtain r2 hs2 where b: "Set cache0 GoNil GoNil heap0 = Inr (r2, hs2)"
    "Get cache0 GoNil hs2 = Inr ((\<lparr>Key = GoNil, Value = GoNil\<rparr>, True), hs2)"
    "stored_keys (entries cache0 hs2) = {#GoNil#}"
    "\<exists>n. Len cache0 hs2 = Inr (n, hs2) \<and> n = int (size (stored_keys (entries cache0 hs2))) \<and> 1 \<le> n"
    by (auto simp add: sk0 c0)
  from b(3) b(4) have b4: "Len cache0 hs2 = Inr (1, hs2)" by auto
  from nil_value_is_present [OF hashable_nan_key, of cache0 heap0 "[nan_key]"]
  obtain r3 hs3 where c: "Set cache0 nan_key GoNil heap0 = Inr (r3, hs3)"
    "Get cache0 nan_key hs3 = Inr ((\<lparr>Key = GoNil, Value = GoNil\<rparr>, False), hs3)"
    "range_order (entries cache0 hs3) [nan_key] \<longrightarrow>
       (\<exists>s hk. Keys cache0 [nan_key] hs3 = Inr (s, hk) \<and> nan_key \<in> set (slice_elems hk s))"
    "stored_keys (entries cache0 hs3) = {#nan_key#}"
    "\<exists>n. Len cache0 hs3 = Inr (n, hs3) \<and> n = int (size (stored_keys (entries cache0 hs3))) \<and> 1 \<le> n"
    by (auto simp add: irreflexive_nan_key sk0 c0)
  from c(4) c(3) have c3: "\<exists>s hk. Keys cache0 [nan_key] hs3 = Inr (s, hk) \<and> nan_key \<in> set (slice_elems hk s)"
    by (simp add: range_order_def)
  from c(4) c(5) have c5: "Len cache0 hs3 = Inr (1, hs3)" by auto
  from hashable_key1 reflexive_key1 hashable_GoNil r0 hashable_nan_key irreflexive_nan_key
    g1 g2 a(1,2) a3 a5 b(1,2) b4 c(1,2) c3 c5
  show ?thesis by blast
qed


section \<open>Flush\<close>

text \<open>
  C4. After \<open>Flush\<close> the cache's \<open>Len\<close> is 0, and \<open>Get k\<close> misses after any further calls
  that do not set \<open>k\<close>. This holds for every key that can be hashed, so for every key that
  was set before: a \<open>Set\<close> that returned had such a key (\<open>Set_Inr_hashable\<close>).
\<close>

theorem Flush_empties:
  "\<exists>hf. Flush ac h = Inr hf \<and> Len ac hf = Inr (0, hf) \<and>
     (hashable k \<and> (\<forall>c \<in> set cs. \<not> is_Set_of k c) \<longrightarrow>
        Get ac k (after_calls ac cs hf) =
          Inr ((\<lparr>Key = GoNil, Value = GoNil\<rparr>, False), after_calls ac cs hf))"
proof -
  from Flush_returns obtain hf where f: "Flush ac h = Inr hf" and e: "entries ac hf = emptymap"
    by blast
  from e have l: "Len ac hf = Inr (0, hf)"
    by (simp add: Len_returns maplen_def emptymap_def)
  have "hashable k \<and> (\<forall>c \<in> set cs. \<not> is_Set_of k c) \<longrightarrow>
        Get ac k (after_calls ac cs hf) =
          Inr ((\<lparr>Key = GoNil, Value = GoNil\<rparr>, False), after_calls ac cs hf)"
  proof
    assume a: "hashable k \<and> (\<forall>c \<in> set cs. \<not> is_Set_of k c)"
    from e have "fmlookup (cells (entries ac hf)) k = None" by (simp add: emptymap_def)
    from lookup_after_calls_absent [OF this] a
    have "fmlookup (cells (entries ac (after_calls ac cs hf))) k = None" by simp
    with a show "Get ac k (after_calls ac cs hf) =
          Inr ((\<lparr>Key = GoNil, Value = GoNil\<rparr>, False), after_calls ac cs hf)"
      by (simp add: Get_hashable)
  qed
  with f l show ?thesis by blast
qed

theorem Flush_empties_witness:
  "Get cache0 key1 heap2 = Inr ((\<lparr>Key = key1, Value = value1\<rparr>, True), heap2) \<and>
   Len cache0 heap2 = Inr (2, heap2) \<and> Len cache0 heap_nan2 = Inr (2, heap_nan2) \<and>
   hashable key1 \<and>
   (\<exists>hf. Flush cache0 heap2 = Inr hf \<and> Len cache0 hf = Inr (0, hf) \<and>
      Get cache0 key1 (after_calls cache0 [CallGet key1, CallSet key2 value1, CallLen] hf) =
        Inr ((\<lparr>Key = GoNil, Value = GoNil\<rparr>, False),
             after_calls cache0 [CallGet key1, CallSet key2 value1, CallLen] hf)) \<and>
   (\<exists>hf. Flush cache0 heap_nan2 = Inr hf \<and> Len cache0 hf = Inr (0, hf))"
proof -
  have g: "Get cache0 key1 heap2 = Inr ((\<lparr>Key = key1, Value = value1\<rparr>, True), heap2)"
    by (simp add: Get_hashable hashable_key1 reflexive_key1 entries_heap2 key1_neq_key2 [symmetric])
  have l: "Len cache0 heap2 = Inr (2, heap2)"
    by (simp add: Len_returns maplen_def entries_heap2 key1_neq_key2 [symmetric])
  have n: "Len cache0 heap_nan2 = Inr (2, heap_nan2)"
    by (simp add: Len_returns maplen_def entries_heap_nan2)
  from Flush_empties [where ac = cache0 and h = heap2 and k = key1
      and cs = "[CallGet key1, CallSet key2 value1, CallLen]"]
    Flush_empties [where ac = cache0 and h = heap_nan2 and k = key1 and cs = "[]"]
    hashable_key1 key1_neq_key2 g l n
  show ?thesis by (simp del: after_calls.simps) blast
qed


section \<open>Keys\<close>




section \<open>Run-time errors\<close>

text \<open>
  C6, as stated, fails. The key type is \<^verbatim>\<open>any\<close>, so a key of the struct type
  \<^verbatim>\<open>incmpUser\<close> compiles, and \<open>Set\<close> panics on it at run time, as the comment in the
  example program says of the call \<^verbatim>\<open>ac.Set(incmpUser{name: "bradford", age: 34}, "panic")\<close>.
\<close>

theorem Set_incomparable_key_panics:
  "Set cache0 bradford_incmp (Dyn TString (VString ''panic'')) heap0 =
     Inl (HashOfUnhashableType incmpUser)"
  by (simp add: Set_def mapaccess2_def bradford_incmp_def incmpUser_def)

text \<open>
  C6, amended. \<open>Set\<close> and \<open>Get\<close> return exactly if the key can be hashed: it is the nil
  interface, or its dynamic type is comparable and hashing its value meets no interface
  value of a dynamic type that is not comparable. With any other key both panic with
  "hash of unhashable type", naming the type that cannot be hashed. \<open>Keys\<close>, \<open>Flush\<close> and
  \<open>Len\<close> return in every state.
\<close>

theorem panic_iff_unhashable_key:
  "(hashable k \<longleftrightarrow> k = GoNil \<or> (\<exists>t x. k = Dyn t x \<and> comparable t \<and> val_hash_error x = None)) \<and>
   (hashable k \<longrightarrow> (\<exists>r h'. Set ac k v h = Inr (r, h')) \<and> (\<exists>r. Get ac k h = Inr (r, h))) \<and>
   (\<not> hashable k \<longrightarrow>
      (\<exists>p. mapKeyError k = Some p \<and> Set ac k v h = Inl p \<and> Get ac k h = Inl p)) \<and>
   (\<exists>s h'. Keys ac order h = Inr (s, h')) \<and>
   (\<exists>h'. Flush ac h = Inr h') \<and>
   (\<exists>n. Len ac h = Inr (n, h))"
proof (intro conjI impI)
  show "hashable k \<longleftrightarrow> k = GoNil \<or> (\<exists>t x. k = Dyn t x \<and> comparable t \<and> val_hash_error x = None)"
    by (cases k) (simp_all add: hashable_def)
next
  assume hk: "hashable k"
  then show "\<exists>r h'. Set ac k v h = Inr (r, h')" by (simp add: Set_hashable)
  from hk show "\<exists>r. Get ac k h = Inr (r, h)"
    by (auto simp add: Get_hashable split: option.splits)
next
  assume n: "\<not> hashable k"
  from Set_unhashable [OF n, of ac v h] Get_unhashable [OF n, of ac h]
  show "\<exists>p. mapKeyError k = Some p \<and> Set ac k v h = Inl p \<and> Get ac k h = Inl p" by auto
next
  show "\<exists>s h'. Keys ac order h = Inr (s, h')" by (rule Keys_returns)
  from Flush_returns show "\<exists>h'. Flush ac h = Inr h'" by blast
  show "\<exists>n. Len ac h = Inr (n, h)" by (simp add: Len_def)
qed

theorem panic_iff_unhashable_key_witness:
  "hashable bradford_cmp \<and>
   (\<exists>r h'. Set cache0 bradford_cmp value1 heap0 = Inr (r, h')) \<and>
   (\<exists>r. Get cache0 bradford_cmp heap0 = Inr (r, heap0)) \<and>
   hashable nan_key \<and>
   (\<exists>r h'. Set cache0 nan_key value1 heap0 = Inr (r, h')) \<and>
   \<not> hashable bradford_incmp \<and>
   Set cache0 bradford_incmp value1 heap0 = Inl (HashOfUnhashableType incmpUser) \<and>
   Get cache0 bradford_incmp heap0 = Inl (HashOfUnhashableType incmpUser) \<and>
   comparable boxed \<and> \<not> hashable boxed_slice \<and>
   Set cache0 boxed_slice value1 heap0 = Inl (HashOfUnhashableType (TSlice TInt)) \<and>
   Get cache0 boxed_slice heap0 = Inl (HashOfUnhashableType (TSlice TInt))"
proof -
  have a: "hashable bradford_cmp" by (simp add: hashable_def bradford_cmp_def cmpUser_def)
  have b: "mapKeyError bradford_incmp = Some (HashOfUnhashableType incmpUser)"
    by (simp add: bradford_incmp_def incmpUser_def)
  have c: "mapKeyError boxed_slice = Some (HashOfUnhashableType (TSlice TInt))"
    by (simp add: boxed_slice_def boxed_def)
  have d: "comparable boxed" by (simp add: boxed_def)
  from b c have n: "\<not> hashable bradford_incmp" "\<not> hashable boxed_slice"
    by (simp_all add: hashable_def)
  from panic_iff_unhashable_key [where k = bradford_cmp and ac = cache0 and v = value1 and h = heap0]
    panic_iff_unhashable_key [where k = nan_key and ac = cache0 and v = value1 and h = heap0]
    panic_iff_unhashable_key [where k = bradford_incmp and ac = cache0 and v = value1 and h = heap0]
    panic_iff_unhashable_key [where k = boxed_slice and ac = cache0 and v = value1 and h = heap0]
    a b c d n hashable_nan_key
  show ?thesis by simp
qed


section \<open>Capacity\<close>

text \<open>
  C7. In a cache made by \<open>New n\<close>, after any calls, \<open>Set\<close> with a key that can be hashed
  returns, adds the key, leaves every other entry as it was and does not lower \<open>Len\<close>:
  the capacity \<open>n\<close> plays no part. Every number of entries, also above \<open>n\<close>, is reached by
  some sequence of calls.
\<close>

theorem capacity_never_enforced:
  assumes "New n h = Inr (ac, hnew)" and "hashable k"
  shows "(\<exists>r h' l l'. Set ac k v (after_calls ac cs hnew) = Inr (r, h') \<and>
            set_mset (stored_keys (entries ac h')) =
              insert k (set_mset (stored_keys (entries ac (after_calls ac cs hnew)))) \<and>
            stored_keys (entries ac (after_calls ac cs hnew)) \<subseteq># stored_keys (entries ac h') \<and>
            (reflexive k \<longrightarrow>
               fmdom' (cells (entries ac h')) =
                 insert k (fmdom' (cells (entries ac (after_calls ac cs hnew))))) \<and>
            (\<forall>k'. k' \<noteq> k \<longrightarrow>
               fmlookup (cells (entries ac h')) k' =
                 fmlookup (cells (entries ac (after_calls ac cs hnew))) k') \<and>
            take (length (loose (entries ac (after_calls ac cs hnew)))) (loose (entries ac h')) =
              loose (entries ac (after_calls ac cs hnew)) \<and>
            Len ac (after_calls ac cs hnew) = Inr (l, after_calls ac cs hnew) \<and>
            Len ac h' = Inr (l', h') \<and> l \<le> l') \<and>
         (\<forall>m. \<exists>ds. Len ac (after_calls ac ds hnew) = Inr (int m, after_calls ac ds hnew))"
proof (intro conjI allI)
  let ?h = "after_calls ac cs hnew"
  let ?h' = "?h\<lparr>map_objs := (map_objs ?h)(items ac := with_entry (entries ac ?h) k v)\<rparr>"
  have s: "Set ac k v ?h =
      Inr ((\<lparr>Key = k, Value = v\<rparr>, reflexive k \<and> k \<in> fmdom' (cells (entries ac ?h))), ?h')"
    by (rule Set_hashable [OF assms(2)])
  have e: "entries ac ?h' = with_entry (entries ac ?h) k v" by (simp add: entries_def)
  have a: "set_mset (stored_keys (entries ac ?h')) = insert k (set_mset (stored_keys (entries ac ?h)))"
    unfolding e by (rule set_stored_keys_with_entry)
  have b: "stored_keys (entries ac ?h) \<subseteq># stored_keys (entries ac ?h')"
    unfolding e by (simp add: stored_keys_with_entry)
  have b': "reflexive k \<longrightarrow>
      fmdom' (cells (entries ac ?h')) = insert k (fmdom' (cells (entries ac ?h)))"
    unfolding e by (simp add: with_entry_def)
  have c: "\<forall>k'. k' \<noteq> k \<longrightarrow>
      fmlookup (cells (entries ac ?h')) k' = fmlookup (cells (entries ac ?h)) k'"
    unfolding e by (simp add: lookup_with_entry)
  have d: "take (length (loose (entries ac ?h))) (loose (entries ac ?h')) = loose (entries ac ?h)"
    unfolding e by (simp add: loose_with_entry)
  have l: "Len ac ?h = Inr (int (maplen (entries ac ?h)), ?h)" by (rule Len_returns)
  have l': "Len ac ?h' = Inr (int (maplen (entries ac ?h')), ?h')" by (rule Len_returns)
  have m: "int (maplen (entries ac ?h)) \<le> int (maplen (entries ac ?h'))"
    unfolding e by (simp add: maplen_with_entry)
  from s a b b' c d l l' m
  show "\<exists>r h' l l'. Set ac k v ?h = Inr (r, h') \<and>
            set_mset (stored_keys (entries ac h')) = insert k (set_mset (stored_keys (entries ac ?h))) \<and>
            stored_keys (entries ac ?h) \<subseteq># stored_keys (entries ac h') \<and>
            (reflexive k \<longrightarrow>
               fmdom' (cells (entries ac h')) = insert k (fmdom' (cells (entries ac ?h)))) \<and>
            (\<forall>k'. k' \<noteq> k \<longrightarrow>
               fmlookup (cells (entries ac h')) k' = fmlookup (cells (entries ac ?h)) k') \<and>
            take (length (loose (entries ac ?h))) (loose (entries ac h')) = loose (entries ac ?h) \<and>
            Len ac ?h = Inr (l, ?h) \<and> Len ac h' = Inr (l', h') \<and> l \<le> l'"
    by blast
next
  fix m
  from Len_after_fill [OF entries_New [OF assms(1)], of m]
  show "\<exists>ds. Len ac (after_calls ac ds hnew) = Inr (int m, after_calls ac ds hnew)" by blast
qed

theorem capacity_never_enforced_witness:
  "New 1 empty_heap = Inr (cache0, heap0) \<and> hashable key2 \<and> reflexive key2 \<and>
   Len cache0 (after_calls cache0 [CallSet key1 value1] heap0) =
     Inr (1, after_calls cache0 [CallSet key1 value1] heap0) \<and>
   (\<exists>r h'. Set cache0 key2 value2 (after_calls cache0 [CallSet key1 value1] heap0) = Inr (r, h') \<and>
      set_mset (stored_keys (entries cache0 h')) = {key2, key1} \<and>
      fmdom' (cells (entries cache0 h')) = {key2, key1} \<and>
      fmlookup (cells (entries cache0 h')) key1 = Some value1 \<and>
      (\<exists>l'. Len cache0 h' = Inr (l', h') \<and> 1 \<le> l')) \<and>
   (\<exists>ds. Len cache0 (after_calls cache0 ds heap0) = Inr (5, after_calls cache0 ds heap0))"
proof -
  have l1: "Len cache0 heap1 = Inr (1, heap1)"
    by (simp add: Len_returns maplen_def entries_heap1)
  have sk: "set_mset (stored_keys (entries cache0 heap1)) = {key1}"
    by (simp add: stored_keys_def entries_heap1)
  have lk: "fmlookup (cells (entries cache0 heap1)) key1 = Some value1"
    by (simp add: entries_heap1)
  from capacity_never_enforced [OF New_1 hashable_key2, of value2 "[CallSet key1 value1]"]
  obtain r h' l l' where s: "Set cache0 key2 value2 heap1 = Inr (r, h')"
    and d: "set_mset (stored_keys (entries cache0 h')) =
      insert key2 (set_mset (stored_keys (entries cache0 heap1)))"
    and c: "reflexive key2 \<longrightarrow>
      fmdom' (cells (entries cache0 h')) = insert key2 (fmdom' (cells (entries cache0 heap1)))"
    and f: "\<forall>k'. k' \<noteq> key2 \<longrightarrow>
      fmlookup (cells (entries cache0 h')) k' = fmlookup (cells (entries cache0 heap1)) k'"
    and n: "Len cache0 heap1 = Inr (l, heap1)" "Len cache0 h' = Inr (l', h')" "l \<le> l'"
    and g: "\<forall>m. \<exists>ds. Len cache0 (after_calls cache0 ds heap0) =
      Inr (int m, after_calls cache0 ds heap0)"
    unfolding after_Set_key1 by blast
  from d sk have d': "set_mset (stored_keys (entries cache0 h')) = {key2, key1}" by simp
  from c reflexive_key2 have c': "fmdom' (cells (entries cache0 h')) = {key2, key1}"
    by (simp add: entries_heap1)
  from f key1_neq_key2 lk have f': "fmlookup (cells (entries cache0 h')) key1 = Some value1"
    by simp
  from n l1 have n': "\<exists>l'. Len cache0 h' = Inr (l', h') \<and> 1 \<le> l'" by auto
  from g [rule_format, of 5]
  have g': "\<exists>ds. Len cache0 (after_calls cache0 ds heap0) = Inr (5, after_calls cache0 ds heap0)"
    by simp
  from s d' c' f' n' l1 g' New_1 hashable_key2 reflexive_key2 show ?thesis
    unfolding after_Set_key1 by blast
qed


section \<open>Read-only methods\<close>

text \<open>
  C8. A \<open>Get\<close> that returns and \<open>Len\<close> leave the heap as it was. \<open>Keys\<close> allocates its
  result and leaves every map as it was, so that \<open>Get\<close>, \<open>Len\<close> and \<open>Keys\<close> give the same
  results after it as before it.
\<close>

theorem reads_leave_entries:
  "(\<forall>x h'. Get ac k h = Inr (x, h') \<longrightarrow> h' = h) \<and>
   (\<exists>n. Len ac h = Inr (n, h)) \<and>
   (\<exists>s hk. Keys ac order h = Inr (s, hk) \<and>
      map_objs hk = map_objs h \<and>
      map_sum id fst (Get ac k hk) = map_sum id fst (Get ac k h) \<and>
      map_sum id fst (Len ac hk) = map_sum id fst (Len ac h) \<and>
      range_order (entries ac hk) order' = range_order (entries ac h) order' \<and>
      keys_elems (Keys ac order' hk) = keys_elems (Keys ac order' h))"
proof (intro conjI allI impI)
  fix x h'
  assume "Get ac k h = Inr (x, h')"
  then show "h' = h" by (rule Get_frame)
next
  show "\<exists>n. Len ac h = Inr (n, h)" by (simp add: Len_def)
next
  from Keys_returns obtain s hk where r: "Keys ac order h = Inr (s, hk)" by blast
  from Keys_frame [OF r] have m: "map_objs hk = map_objs h" by simp
  then have g: "map_sum id fst (Get ac k hk) = map_sum id fst (Get ac k h)"
    by (auto simp add: Get_def split: sum.splits prod.splits)
  from m have l: "map_sum id fst (Len ac hk) = map_sum id fst (Len ac h)"
    by (simp add: Len_def)
  from m have o: "range_order (entries ac hk) order' = range_order (entries ac h) order'"
    by (simp add: entries_def)
  from Keys_returns obtain s1 h1 where r1: "Keys ac order' hk = Inr (s1, h1)" by blast
  from Keys_returns obtain s2 h2 where r2: "Keys ac order' h = Inr (s2, h2)" by blast
  from Keys_elems [OF r1] Keys_elems [OF r2] r1 r2
  have e: "keys_elems (Keys ac order' hk) = keys_elems (Keys ac order' h)"
    by (simp add: keys_elems_def)
  from r m g l o e
  show "\<exists>s hk. Keys ac order h = Inr (s, hk) \<and>
      map_objs hk = map_objs h \<and>
      map_sum id fst (Get ac k hk) = map_sum id fst (Get ac k h) \<and>
      map_sum id fst (Len ac hk) = map_sum id fst (Len ac h) \<and>
      range_order (entries ac hk) order' = range_order (entries ac h) order' \<and>
      keys_elems (Keys ac order' hk) = keys_elems (Keys ac order' h)"
    by blast
qed

theorem reads_leave_entries_witness:
  "(\<exists>x h'. Get cache0 key1 heap1 = Inr (x, h') \<and> h' = heap1) \<and>
   Len cache0 heap1 = Inr (1, heap1) \<and>
   (\<exists>s hk. Keys cache0 [key1] heap1 = Inr (s, hk) \<and> map_objs hk = map_objs heap1 \<and>
      map_sum id fst (Len cache0 hk) = Inr 1 \<and>
      map_sum id fst (Get cache0 key1 hk) = Inr (\<lparr>Key = key1, Value = value1\<rparr>, True))"
proof -
  have g: "Get cache0 key1 heap1 = Inr ((\<lparr>Key = key1, Value = value1\<rparr>, True), heap1)"
    by (simp add: Get_hashable hashable_key1 reflexive_key1 entries_heap1)
  have l: "Len cache0 heap1 = Inr (1, heap1)"
    by (simp add: Len_returns maplen_def entries_heap1)
  from reads_leave_entries [where ac = cache0 and k = key1 and h = heap1 and order = "[key1]"
      and order' = "[key1]"] g l
  show ?thesis by auto
qed


end
